theory Spec2Isabelle
  imports Main
begin

section \<open>AsynchronousCache: data model\<close>

text \<open>
  The class template \<open>AsynchronousCache<Element, Key, Handle>\<close> of
  \<^verbatim>\<open>AsynchronousCache.h\<close>. The type variables \<open>'e\<close>, \<open>'k\<close> and \<open>'h\<close> stand for the
  addresses of elements, the keys and the handles. An \<open>Element *\<close> is an \<open>'e option\<close>:
  \<open>None\<close> is the null pointer, \<open>Some a\<close> the address \<open>a\<close>.
\<close>

datatype State =
    STATE_REQUESTED
  | STATE_PREFETCHED
  | STATE_AVAILABLE
  | STATE_RELEASED

record ('e, 'k, 'h) Entry =
  key :: 'k
  state :: State
  handle :: 'h
  pElement :: "'e option"

text \<open>The constructor \<open>Entry(k, t, s)\<close>: the element pointer starts as null.\<close>

definition mk_Entry :: "'k \<Rightarrow> 'h \<Rightarrow> State \<Rightarrow> ('e, 'k, 'h) Entry" where
  "mk_Entry k t s = \<lparr>key = k, state = s, handle = t, pElement = None\<rparr>"

text \<open>
  The four pure virtual member functions are a parameter of the model. The derived class
  has a state of its own, of type \<open>'b\<close>; none of the four functions is \<open>const\<close>, so each
  one may change that state. \<open>m_entries\<close> is private: the four functions do not touch it,
  and the model takes it that they do not call the public member functions either.
\<close>

record ('e, 'k, 'h, 'b) backing_store =
  Load :: "'k \<Rightarrow> 'b \<Rightarrow> 'h \<times> 'b"
  Unload :: "'h \<Rightarrow> 'b \<Rightarrow> 'b"
  HasRoomFor :: "'k \<Rightarrow> 'b \<Rightarrow> bool \<times> 'b"
  GetElement :: "'h \<Rightarrow> 'b \<Rightarrow> 'e option \<times> 'b"

text \<open>
  Every call of a virtual function is recorded, with its argument and its result, in a
  history that the model carries beside the object. The history is how a statement such as
  ``no call to the backing store'' or ``\<open>Unload\<close> is called once for every entry'' is
  expressed; the code never reads it.
\<close>

datatype ('e, 'k, 'h) call =
    CallLoad 'k 'h
  | CallUnload 'h
  | CallHasRoomFor 'k bool
  | CallGetElement 'h "'e option"

record ('e, 'k, 'h, 'b) cache =
  m_entries :: "('e, 'k, 'h) Entry list"
  derived :: 'b
  calls :: "('e, 'k, 'h) call list"

text \<open>The default constructor: no entries. The derived part is given.\<close>

definition AsynchronousCache :: "'b \<Rightarrow> ('e, 'k, 'h, 'b) cache" where
  "AsynchronousCache b = \<lparr>m_entries = [], derived = b, calls = []\<rparr>"

definition call_Load ::
  "('e, 'k, 'h, 'b) backing_store \<Rightarrow> 'k \<Rightarrow> ('e, 'k, 'h, 'b) cache \<Rightarrow> 'h \<times> ('e, 'k, 'h, 'b) cache" where
  "call_Load ops k c =
     (let (h, b) = Load ops k (derived c)
      in (h, c\<lparr>derived := b, calls := calls c @ [CallLoad k h]\<rparr>))"

definition call_Unload ::
  "('e, 'k, 'h, 'b) backing_store \<Rightarrow> 'h \<Rightarrow> ('e, 'k, 'h, 'b) cache \<Rightarrow> ('e, 'k, 'h, 'b) cache" where
  "call_Unload ops h c =
     c\<lparr>derived := Unload ops h (derived c), calls := calls c @ [CallUnload h]\<rparr>"

definition call_HasRoomFor ::
  "('e, 'k, 'h, 'b) backing_store \<Rightarrow> 'k \<Rightarrow> ('e, 'k, 'h, 'b) cache \<Rightarrow> bool \<times> ('e, 'k, 'h, 'b) cache" where
  "call_HasRoomFor ops k c =
     (let (r, b) = HasRoomFor ops k (derived c)
      in (r, c\<lparr>derived := b, calls := calls c @ [CallHasRoomFor k r]\<rparr>))"

definition call_GetElement ::
  "('e, 'k, 'h, 'b) backing_store \<Rightarrow> 'h \<Rightarrow> ('e, 'k, 'h, 'b) cache
     \<Rightarrow> 'e option \<times> ('e, 'k, 'h, 'b) cache" where
  "call_GetElement ops h c =
     (let (p, b) = GetElement ops h (derived c)
      in (p, c\<lparr>derived := b, calls := calls c @ [CallGetElement h p]\<rparr>))"

section \<open>Iterators and the list operations\<close>

text \<open>
  An iterator of \<open>m_entries\<close> is a position: \<open>begin()\<close> is \<open>0\<close> and \<open>end()\<close> is the
  length of the list, so \<open>pEntry != m_entries.end()\<close> is \<open>pEntry < length (m_entries c)\<close>.
  \<open>std::find_if\<close> gives the first position whose entry satisfies the predicate, and
  \<open>end()\<close> when there is none.
\<close>

fun find_if :: "('a \<Rightarrow> bool) \<Rightarrow> 'a list \<Rightarrow> nat" where
  "find_if P [] = 0"
| "find_if P (x # xs) = (if P x then 0 else Suc (find_if P xs))"

text \<open>\<open>m_entries.erase(pEntry)\<close>; the iterator of the next entry is the same position.\<close>

definition erase :: "nat \<Rightarrow> 'a list \<Rightarrow> 'a list" where
  "erase i xs = take i xs @ drop (Suc i) xs"

text \<open>\<open>m_entries.splice(m_entries.end(), m_entries, pEntry)\<close>: move one entry to the back.\<close>

definition splice_end :: "nat \<Rightarrow> 'a list \<Rightarrow> 'a list" where
  "splice_end i xs = take i xs @ drop (Suc i) xs @ [xs ! i]"

definition Find_key :: "'k \<Rightarrow> ('e, 'k, 'h, 'b) cache \<Rightarrow> nat" where
  "Find_key k c = find_if (\<lambda>entry. key entry = k) (m_entries c)"

definition Find_ptr :: "'e option \<Rightarrow> ('e, 'k, 'h, 'b) cache \<Rightarrow> nat" where
  "Find_ptr p c = find_if (\<lambda>entry. pElement entry = p) (m_entries c)"

section \<open>The private member functions\<close>

text \<open>\<open>Evict\<close> is only ever called with an iterator that is not \<open>end()\<close>.\<close>

definition Evict ::
  "('e, 'k, 'h, 'b) backing_store \<Rightarrow> nat \<Rightarrow> ('e, 'k, 'h, 'b) cache \<Rightarrow> nat \<times> ('e, 'k, 'h, 'b) cache" where
  "Evict ops pEntry c =
     (let c1 = call_Unload ops (handle (m_entries c ! pEntry)) c
      in (pEntry, c1\<lparr>m_entries := erase pEntry (m_entries c1)\<rparr>))"

text \<open>\<open>Reload\<close> only sets the state: no virtual function is called.\<close>

definition Reload :: "nat \<Rightarrow> ('e, 'k, 'h, 'b) cache \<Rightarrow> ('e, 'k, 'h, 'b) cache" where
  "Reload pEntry c =
     c\<lparr>m_entries := (m_entries c)[pEntry := (m_entries c ! pEntry)\<lparr>state := STATE_AVAILABLE\<rparr>]\<rparr>"

text \<open>
  The loop of \<open>MakeRoomForNewEntry\<close>. \<open>HasRoomFor\<close> is the first operand of \<open>&&\<close>, so it
  is called at every test of the loop condition, also when the iterator is at the end.
\<close>

function MakeRoom_loop ::
  "('e, 'k, 'h, 'b) backing_store \<Rightarrow> 'k \<Rightarrow> nat \<Rightarrow> ('e, 'k, 'h, 'b) cache \<Rightarrow> ('e, 'k, 'h, 'b) cache" where
  "MakeRoom_loop ops k pEntry c =
     (let rc = call_HasRoomFor ops k c; room = fst rc; c1 = snd rc
      in if \<not> room \<and> pEntry < length (m_entries c1) then
           if state (m_entries c1 ! pEntry) = STATE_RELEASED
              \<or> state (m_entries c1 ! pEntry) = STATE_PREFETCHED
           then MakeRoom_loop ops k (fst (Evict ops pEntry c1)) (snd (Evict ops pEntry c1))
           else MakeRoom_loop ops k (Suc pEntry) c1
         else c1)"
  by pat_completeness auto
termination
  by (relation "measure (\<lambda>(ops, k, pEntry, c). length (m_entries c) - pEntry)")
     (auto simp: Evict_def Let_def call_HasRoomFor_def call_Unload_def erase_def
           split: prod.splits)

declare MakeRoom_loop.simps [simp del]

definition MakeRoomForNewEntry ::
  "('e, 'k, 'h, 'b) backing_store \<Rightarrow> 'k \<Rightarrow> ('e, 'k, 'h, 'b) cache \<Rightarrow> bool \<times> ('e, 'k, 'h, 'b) cache" where
  "MakeRoomForNewEntry ops k c = call_HasRoomFor ops k (MakeRoom_loop ops k 0 c)"

text \<open>
  \<open>Fetch\<close> returns \<open>end()\<close> when there is no room, and the iterator of the new entry, the
  last one, otherwise.
\<close>

definition Fetch ::
  "('e, 'k, 'h, 'b) backing_store \<Rightarrow> 'k \<Rightarrow> State \<Rightarrow> ('e, 'k, 'h, 'b) cache
     \<Rightarrow> nat \<times> ('e, 'k, 'h, 'b) cache" where
  "Fetch ops k s c =
     (let (room, c1) = MakeRoomForNewEntry ops k c
      in if room then
           (let (h, c2) = call_Load ops k c1
            in (length (m_entries c2), c2\<lparr>m_entries := m_entries c2 @ [mk_Entry k h s]\<rparr>))
         else (length (m_entries c1), c1))"

text \<open>
  The private overload \<open>Release(iterator, forceEviction)\<close>, which both public overloads
  call with the entry they found. Its last branch, for an entry that is prefetched or
  released, holds a comment and no statement.
\<close>

definition Release_it ::
  "('e, 'k, 'h, 'b) backing_store \<Rightarrow> nat \<Rightarrow> bool \<Rightarrow> ('e, 'k, 'h, 'b) cache \<Rightarrow> ('e, 'k, 'h, 'b) cache" where
  "Release_it ops pEntry forceEviction c =
     (if state (m_entries c ! pEntry) = STATE_REQUESTED \<or> forceEviction then
        snd (Evict ops pEntry c)
      else if state (m_entries c ! pEntry) = STATE_AVAILABLE then
        c\<lparr>m_entries :=
            splice_end pEntry
              ((m_entries c)[pEntry := (m_entries c ! pEntry)\<lparr>state := STATE_RELEASED\<rparr>])\<rparr>
      else c)"

section \<open>The public member functions\<close>

definition Request ::
  "('e, 'k, 'h, 'b) backing_store \<Rightarrow> 'k \<Rightarrow> ('e, 'k, 'h, 'b) cache \<Rightarrow> bool \<times> ('e, 'k, 'h, 'b) cache" where
  "Request ops k c =
     (let pEntry = Find_key k c
      in if pEntry < length (m_entries c) then
           (case state (m_entries c ! pEntry) of
              STATE_REQUESTED \<Rightarrow> (True, c)
            | STATE_AVAILABLE \<Rightarrow> (True, c)
            | STATE_PREFETCHED \<Rightarrow>
                (let (p, c1) = call_GetElement ops (handle (m_entries c ! pEntry)) c
                 in if p \<noteq> None then
                      (True, c1\<lparr>m_entries := (m_entries c1)
                         [pEntry := (m_entries c1 ! pEntry)\<lparr>state := STATE_AVAILABLE, pElement := p\<rparr>]\<rparr>)
                    else
                      (True, c1\<lparr>m_entries := (m_entries c1)
                         [pEntry := (m_entries c1 ! pEntry)\<lparr>state := STATE_REQUESTED\<rparr>]\<rparr>))
            | STATE_RELEASED \<Rightarrow> (True, Reload pEntry c))
         else
           (let (pNew, c1) = Fetch ops k STATE_REQUESTED c
            in (pNew < length (m_entries c1), c1)))"

definition Prefetch ::
  "('e, 'k, 'h, 'b) backing_store \<Rightarrow> 'k \<Rightarrow> ('e, 'k, 'h, 'b) cache \<Rightarrow> ('e, 'k, 'h, 'b) cache" where
  "Prefetch ops k c =
     (let pEntry = Find_key k c
      in if pEntry < length (m_entries c) then
           (case state (m_entries c ! pEntry) of
              STATE_REQUESTED \<Rightarrow> c
            | STATE_AVAILABLE \<Rightarrow> c
            | STATE_PREFETCHED \<Rightarrow> c\<lparr>m_entries := splice_end pEntry (m_entries c)\<rparr>
            | STATE_RELEASED \<Rightarrow> c\<lparr>m_entries := splice_end pEntry (m_entries c)\<rparr>)
         else snd (Fetch ops k STATE_PREFETCHED c))"

definition Get ::
  "('e, 'k, 'h, 'b) backing_store \<Rightarrow> 'k \<Rightarrow> ('e, 'k, 'h, 'b) cache
     \<Rightarrow> 'e option \<times> ('e, 'k, 'h, 'b) cache" where
  "Get ops k c =
     (let pEntry = Find_key k c
      in if pEntry < length (m_entries c) then
           (let c2 =
              (if state (m_entries c ! pEntry) = STATE_REQUESTED then
                 (let (p, c1) = call_GetElement ops (handle (m_entries c ! pEntry)) c
                  in if p \<noteq> None then
                       c1\<lparr>m_entries := (m_entries c1)
                         [pEntry := (m_entries c1 ! pEntry)\<lparr>state := STATE_AVAILABLE, pElement := p\<rparr>]\<rparr>
                     else c1)
               else c)
            in (pElement (m_entries c2 ! pEntry), c2))
         else (None, c))"

definition Release_key ::
  "('e, 'k, 'h, 'b) backing_store \<Rightarrow> 'k \<Rightarrow> bool \<Rightarrow> ('e, 'k, 'h, 'b) cache \<Rightarrow> ('e, 'k, 'h, 'b) cache" where
  "Release_key ops k forceEviction c =
     (let pEntry = Find_key k c
      in if pEntry < length (m_entries c) then Release_it ops pEntry forceEviction c else c)"

definition Release_ptr ::
  "('e, 'k, 'h, 'b) backing_store \<Rightarrow> 'e option \<Rightarrow> bool \<Rightarrow> ('e, 'k, 'h, 'b) cache
     \<Rightarrow> ('e, 'k, 'h, 'b) cache" where
  "Release_ptr ops p forceEviction c =
     (let pEntry = Find_ptr p c
      in if pEntry < length (m_entries c) then Release_it ops pEntry forceEviction c else c)"

text \<open>
  \<open>IsEmpty\<close> computes \<open>m_entries.empty()\<close> into a local variable and then ends without a
  \<open>return\<close> statement: the function hands no value back, which is \<open>None\<close> here.
\<close>

definition IsEmpty :: "('e, 'k, 'h, 'b) cache \<Rightarrow> bool option" where
  "IsEmpty c = (let empty = (m_entries c = []) in None)"

function Clear_loop ::
  "('e, 'k, 'h, 'b) backing_store \<Rightarrow> nat \<Rightarrow> ('e, 'k, 'h, 'b) cache \<Rightarrow> ('e, 'k, 'h, 'b) cache" where
  "Clear_loop ops pEntry c =
     (if pEntry < length (m_entries c)
      then Clear_loop ops (fst (Evict ops pEntry c)) (snd (Evict ops pEntry c))
      else c)"
  by pat_completeness auto
termination
  by (relation "measure (\<lambda>(ops, pEntry, c). length (m_entries c))")
     (auto simp: Evict_def Let_def call_Unload_def erase_def)

declare Clear_loop.simps [simp del]

definition Clear ::
  "('e, 'k, 'h, 'b) backing_store \<Rightarrow> ('e, 'k, 'h, 'b) cache \<Rightarrow> ('e, 'k, 'h, 'b) cache" where
  "Clear ops c = Clear_loop ops 0 c"

definition IsCached :: "'k \<Rightarrow> ('e, 'k, 'h, 'b) cache \<Rightarrow> bool" where
  "IsCached k c =
     (let pEntry = Find_key k c
      in pEntry < length (m_entries c)
         \<and> (state (m_entries c ! pEntry) = STATE_AVAILABLE
            \<or> state (m_entries c ! pEntry) = STATE_RELEASED))"

section \<open>Clients and a sample derived class\<close>

text \<open>
  A client of the cache calls the public member functions one after the other. The
  \<open>const\<close> member functions change nothing and are left out.
\<close>

datatype ('e, 'k) command =
    CRequest 'k
  | CPrefetch 'k
  | CGet 'k
  | CReleaseKey 'k bool
  | CReleasePtr "'e option" bool
  | CClear

fun exec ::
  "('e, 'k, 'h, 'b) backing_store \<Rightarrow> ('e, 'k) command \<Rightarrow> ('e, 'k, 'h, 'b) cache
     \<Rightarrow> ('e, 'k, 'h, 'b) cache" where
  "exec ops (CRequest k) c = snd (Request ops k c)"
| "exec ops (CPrefetch k) c = Prefetch ops k c"
| "exec ops (CGet k) c = snd (Get ops k c)"
| "exec ops (CReleaseKey k f) c = Release_key ops k f c"
| "exec ops (CReleasePtr p f) c = Release_ptr ops p f c"
| "exec ops CClear c = Clear ops c"

fun exec_all ::
  "('e, 'k, 'h, 'b) backing_store \<Rightarrow> ('e, 'k) command list \<Rightarrow> ('e, 'k, 'h, 'b) cache
     \<Rightarrow> ('e, 'k, 'h, 'b) cache" where
  "exec_all ops [] c = c"
| "exec_all ops (x # xs) c = exec_all ops xs (exec ops x c)"

text \<open>
  A derived class for the concrete instances below: a store with a fixed number of slots.
  Its state is the list of the handles that are loaded; the handle of an element is its
  key, and so is its address; the elements whose handles are in \<open>ready\<close> are loaded as
  soon as they are asked for, the others never.
\<close>

definition slot_store :: "nat \<Rightarrow> nat list \<Rightarrow> (nat, nat, nat, nat list) backing_store" where
  "slot_store capacity ready =
     \<lparr>Load = (\<lambda>k b. (k, b @ [k])),
      Unload = (\<lambda>h b. remove1 h b),
      HasRoomFor = (\<lambda>k b. (length b < capacity, b)),
      GetElement = (\<lambda>h b. (if h \<in> set b \<and> h \<in> set ready then Some h else None, b))\<rparr>"

section \<open>Vocabulary of the statements\<close>

text \<open>
  The test of \<open>MakeRoomForNewEntry\<close> for an entry it may evict, and the calls that a scan
  over the entries \<open>es\<close> makes while there is no room: \<open>HasRoomFor\<close> answers \<open>false\<close>
  before each entry, and each evicted entry is unloaded.
\<close>

definition evictable :: "('e, 'k, 'h) Entry \<Rightarrow> bool" where
  "evictable e = (state e = STATE_RELEASED \<or> state e = STATE_PREFETCHED)"

definition scan_calls :: "'k \<Rightarrow> ('e, 'k, 'h) Entry list \<Rightarrow> ('e, 'k, 'h) call list" where
  "scan_calls k es =
     concat (map (\<lambda>e. CallHasRoomFor k False
                        # (if evictable e then [CallUnload (handle e)] else [])) es)"

text \<open>
  In a state that the member functions build, an entry has a null element pointer exactly
  while it is waiting for its load, and no key occurs twice.
\<close>

definition resolved :: "('e, 'k, 'h) Entry \<Rightarrow> bool" where
  "resolved e =
     ((pElement e = None) = (state e = STATE_REQUESTED \<or> state e = STATE_PREFETCHED))"

definition entries_resolved :: "('e, 'k, 'h, 'b) cache \<Rightarrow> bool" where
  "entries_resolved c = (\<forall>e \<in> set (m_entries c). resolved e)"

definition keys_distinct :: "('e, 'k, 'h, 'b) cache \<Rightarrow> bool" where
  "keys_distinct c = distinct (map key (m_entries c))"

section \<open>Basic facts\<close>

lemma find_if_less_iff: "find_if P xs < length xs \<longleftrightarrow> (\<exists>x\<in>set xs. P x)"
  by (induction xs) auto

lemma find_if_nth: "find_if P xs < length xs \<Longrightarrow> P (xs ! find_if P xs)"
  by (induction xs) auto

lemma find_if_first: "j < find_if P xs \<Longrightarrow> \<not> P (xs ! j)"
  by (induction xs arbitrary: j) (auto simp: nth_Cons split: nat.splits if_splits)

lemma find_if_distinct:
  "distinct (map f xs) \<Longrightarrow> x \<in> set xs \<Longrightarrow> xs ! find_if (\<lambda>y. f y = f x) xs = x"
  by (induction xs) auto

text \<open>
  When no key occurs twice, \<open>Find\<close> by key gives the position of the one entry that has
  the key: ``the entry of key \<open>k\<close>'' is \<open>m_entries c ! Find_key k c\<close>.
\<close>

lemma Find_key_the_entry:
  assumes "keys_distinct c" and "e \<in> set (m_entries c)"
  shows "Find_key (key e) c < length (m_entries c) \<and> m_entries c ! Find_key (key e) c = e"
  using assms
  by (auto simp: keys_distinct_def Find_key_def find_if_less_iff find_if_distinct)

lemma m_entries_call_HasRoomFor [simp]:
  "m_entries (snd (call_HasRoomFor ops k c)) = m_entries c"
  by (simp add: call_HasRoomFor_def split: prod.splits)

lemma m_entries_call_Unload [simp]:
  "m_entries (call_Unload ops h c) = m_entries c"
  by (simp add: call_Unload_def)

lemma length_erase [simp]: "i < length xs \<Longrightarrow> length (erase i xs) = length xs - 1"
  by (simp add: erase_def)

lemma scan_calls_Nil [simp]: "scan_calls k [] = []"
  by (simp add: scan_calls_def)

lemma scan_calls_Cons [simp]:
  "scan_calls k (e # es) =
     CallHasRoomFor k False # (if evictable e then [CallUnload (handle e)] else []) @ scan_calls k es"
  by (simp add: scan_calls_def)

lemma call_HasRoomFor_simps [simp]:
  "fst (call_HasRoomFor ops k c) = fst (HasRoomFor ops k (derived c))"
  "calls (snd (call_HasRoomFor ops k c)) = calls c @ [CallHasRoomFor k (fst (HasRoomFor ops k (derived c)))]"
  "derived (snd (call_HasRoomFor ops k c)) = snd (HasRoomFor ops k (derived c))"
  by (simp_all add: call_HasRoomFor_def split: prod.splits)

lemma Evict_simps [simp]:
  "fst (Evict ops i c) = i"
  "m_entries (snd (Evict ops i c)) = erase i (m_entries c)"
  "calls (snd (Evict ops i c)) = calls c @ [CallUnload (handle (m_entries c ! i))]"
  "derived (snd (Evict ops i c)) = Unload ops (handle (m_entries c ! i)) (derived c)"
  by (simp_all add: Evict_def Let_def call_Unload_def)

lemma MakeRoom_loop_stop:
  "fst (HasRoomFor ops k (derived c)) \<or> \<not> i < length (m_entries c) \<Longrightarrow>
   MakeRoom_loop ops k i c = snd (call_HasRoomFor ops k c)"
  by (subst MakeRoom_loop.simps) (auto simp: Let_def)

lemma MakeRoom_loop_evict:
  "\<not> fst (HasRoomFor ops k (derived c)) \<Longrightarrow> i < length (m_entries c) \<Longrightarrow>
   evictable (m_entries c ! i) \<Longrightarrow>
   MakeRoom_loop ops k i c = MakeRoom_loop ops k i (snd (Evict ops i (snd (call_HasRoomFor ops k c))))"
  by (subst MakeRoom_loop.simps) (auto simp: Let_def evictable_def)

lemma MakeRoom_loop_skip:
  "\<not> fst (HasRoomFor ops k (derived c)) \<Longrightarrow> i < length (m_entries c) \<Longrightarrow>
   \<not> evictable (m_entries c ! i) \<Longrightarrow>
   MakeRoom_loop ops k i c = MakeRoom_loop ops k (Suc i) (snd (call_HasRoomFor ops k c))"
  by (subst MakeRoom_loop.simps) (auto simp: Let_def evictable_def)

lemma MakeRoom_loop_char:
  "i \<le> length (m_entries c) \<Longrightarrow>
   \<exists>n r. i + n \<le> length (m_entries c) \<and> (r \<or> i + n = length (m_entries c)) \<and>
     m_entries (MakeRoom_loop ops k i c) =
       take i (m_entries c) @ filter (\<lambda>e. \<not> evictable e) (take n (drop i (m_entries c)))
         @ drop (i + n) (m_entries c) \<and>
     calls (MakeRoom_loop ops k i c) =
       calls c @ scan_calls k (take n (drop i (m_entries c))) @ [CallHasRoomFor k r]"
proof (induction "length (m_entries c) - i" arbitrary: i c rule: less_induct)
  case less
  let ?es = "m_entries c"
  let ?c1 = "snd (call_HasRoomFor ops k c)"
  show ?case
  proof (cases "fst (HasRoomFor ops k (derived c)) \<or> \<not> i < length ?es")
    case True
    then have eq: "MakeRoom_loop ops k i c = ?c1" by (rule MakeRoom_loop_stop)
    have "i + 0 \<le> length ?es \<and> (fst (HasRoomFor ops k (derived c)) \<or> i + 0 = length ?es) \<and>
      m_entries ?c1 = take i ?es @ filter (\<lambda>e. \<not> evictable e) (take 0 (drop i ?es)) @ drop (i + 0) ?es \<and>
      calls ?c1 = calls c @ scan_calls k (take 0 (drop i ?es)) @ [CallHasRoomFor k (fst (HasRoomFor ops k (derived c)))]"
      using True less.prems by auto
    then show ?thesis unfolding eq by blast
  next
    case False
    then have noroom: "\<not> fst (HasRoomFor ops k (derived c))" and lt: "i < length ?es" by auto
    have split: "drop i ?es = ?es ! i # drop (Suc i) ?es"
      using lt by (simp add: Cons_nth_drop_Suc)
    show ?thesis
    proof (cases "evictable (?es ! i)")
      case True
      let ?c2 = "snd (Evict ops i ?c1)"
      have eq: "MakeRoom_loop ops k i c = MakeRoom_loop ops k i ?c2"
        using noroom lt True by (rule MakeRoom_loop_evict)
      have es2: "m_entries ?c2 = take i ?es @ drop (Suc i) ?es" by (simp add: erase_def)
      have "length (m_entries ?c2) - i < length ?es - i" using lt by (simp add: erase_def)
      moreover have "i \<le> length (m_entries ?c2)" using lt by (simp add: erase_def)
      ultimately obtain n r where
        n: "i + n \<le> length (m_entries ?c2)" and r: "r \<or> i + n = length (m_entries ?c2)"
        and m: "m_entries (MakeRoom_loop ops k i ?c2) =
          take i (m_entries ?c2) @ filter (\<lambda>e. \<not> evictable e) (take n (drop i (m_entries ?c2)))
            @ drop (i + n) (m_entries ?c2)"
        and cl: "calls (MakeRoom_loop ops k i ?c2) =
          calls ?c2 @ scan_calls k (take n (drop i (m_entries ?c2))) @ [CallHasRoomFor k r]"
        using less.hyps [of ?c2 i] by blast
      have d2: "drop i (m_entries ?c2) = drop (Suc i) ?es" using lt by (simp add: erase_def)
      have t2: "take i (m_entries ?c2) = take i ?es" using lt by (simp add: erase_def)
      have dn: "drop (i + n) (m_entries ?c2) = drop (i + Suc n) ?es"
        using lt by (simp add: erase_def add.commute)
      have "i + Suc n \<le> length ?es \<and> (r \<or> i + Suc n = length ?es) \<and>
        m_entries (MakeRoom_loop ops k i ?c2) =
          take i ?es @ filter (\<lambda>e. \<not> evictable e) (take (Suc n) (drop i ?es)) @ drop (i + Suc n) ?es \<and>
        calls (MakeRoom_loop ops k i ?c2) =
          calls c @ scan_calls k (take (Suc n) (drop i ?es)) @ [CallHasRoomFor k r]"
        using n r lt True noroom unfolding m cl d2 t2 dn split
        by (auto simp: erase_def)
      then show ?thesis unfolding eq by blast
    next
      case False
      have eq: "MakeRoom_loop ops k i c = MakeRoom_loop ops k (Suc i) ?c1"
        using noroom lt False by (rule MakeRoom_loop_skip)
      have es1: "m_entries ?c1 = ?es" by simp
      have "length (m_entries ?c1) - Suc i < length ?es - i" using lt by simp
      moreover have "Suc i \<le> length (m_entries ?c1)" using lt by simp
      ultimately obtain n r where
        n: "Suc i + n \<le> length ?es" and r: "r \<or> Suc i + n = length ?es"
        and m: "m_entries (MakeRoom_loop ops k (Suc i) ?c1) =
          take (Suc i) ?es @ filter (\<lambda>e. \<not> evictable e) (take n (drop (Suc i) ?es))
            @ drop (Suc i + n) ?es"
        and cl: "calls (MakeRoom_loop ops k (Suc i) ?c1) =
          calls ?c1 @ scan_calls k (take n (drop (Suc i) ?es)) @ [CallHasRoomFor k r]"
        using less.hyps [of ?c1 "Suc i"] unfolding es1 by blast
      have "i + Suc n \<le> length ?es \<and> (r \<or> i + Suc n = length ?es) \<and>
        m_entries (MakeRoom_loop ops k (Suc i) ?c1) =
          take i ?es @ filter (\<lambda>e. \<not> evictable e) (take (Suc n) (drop i ?es)) @ drop (i + Suc n) ?es \<and>
        calls (MakeRoom_loop ops k (Suc i) ?c1) =
          calls c @ scan_calls k (take (Suc n) (drop i ?es)) @ [CallHasRoomFor k r]"
        using n r lt False noroom unfolding m cl split
        by (simp add: take_Suc_conv_app_nth)
      then show ?thesis unfolding eq by blast
    qed
  qed
qed


lemma not_evictable_iff:
  "\<not> evictable e \<longleftrightarrow> state e = STATE_REQUESTED \<or> state e = STATE_AVAILABLE"
  by (cases "state e") (simp_all add: evictable_def)

lemma call_Load_simps [simp]:
  "fst (call_Load ops k c) = fst (Load ops k (derived c))"
  "m_entries (snd (call_Load ops k c)) = m_entries c"
  "calls (snd (call_Load ops k c)) = calls c @ [CallLoad k (fst (Load ops k (derived c)))]"
  "derived (snd (call_Load ops k c)) = snd (Load ops k (derived c))"
  by (simp_all add: call_Load_def split: prod.splits)

lemma call_GetElement_simps [simp]:
  "fst (call_GetElement ops h c) = fst (GetElement ops h (derived c))"
  "m_entries (snd (call_GetElement ops h c)) = m_entries c"
  "calls (snd (call_GetElement ops h c)) =
     calls c @ [CallGetElement h (fst (GetElement ops h (derived c)))]"
  "derived (snd (call_GetElement ops h c)) = snd (GetElement ops h (derived c))"
  by (simp_all add: call_GetElement_def split: prod.splits)

lemma m_entries_MakeRoomForNewEntry [simp]:
  "m_entries (snd (MakeRoomForNewEntry ops k c)) = m_entries (MakeRoom_loop ops k 0 c)"
  by (simp add: MakeRoomForNewEntry_def)

lemma MakeRoom_loop_entries:
  "\<exists>n. n \<le> length (m_entries c) \<and>
     m_entries (MakeRoom_loop ops k 0 c) =
       filter (\<lambda>e. \<not> evictable e) (take n (m_entries c)) @ drop n (m_entries c)"
  using MakeRoom_loop_char [of 0 c ops k] by auto

lemma MakeRoom_loop_subset:
  "set (m_entries (MakeRoom_loop ops k 0 c)) \<subseteq> set (m_entries c)"
proof -
  obtain n where
    "m_entries (MakeRoom_loop ops k 0 c) =
       filter (\<lambda>e. \<not> evictable e) (take n (m_entries c)) @ drop n (m_entries c)"
    using MakeRoom_loop_entries [of c ops k] by blast
  then show ?thesis
    using set_take_subset [of n "m_entries c"] set_drop_subset [of n "m_entries c"] by auto
qed

lemma MakeRoom_loop_distinct:
  assumes "distinct (map key (m_entries c))"
  shows "distinct (map key (m_entries (MakeRoom_loop ops k 0 c)))"
proof -
  obtain n where eq:
    "m_entries (MakeRoom_loop ops k 0 c) =
       filter (\<lambda>e. \<not> evictable e) (take n (m_entries c)) @ drop n (m_entries c)"
    using MakeRoom_loop_entries [of c ops k] by blast
  have "distinct (map key (take n (m_entries c) @ drop n (m_entries c)))"
    using assms by simp
  then have "distinct (map key (take n (m_entries c)))"
    and "distinct (map key (drop n (m_entries c)))"
    and "set (map key (take n (m_entries c))) \<inter> set (map key (drop n (m_entries c))) = {}"
    unfolding map_append distinct_append by blast+
  then show ?thesis
    unfolding eq by (auto simp: distinct_map_filter)
qed

lemma Fetch_fail:
  "\<not> fst (MakeRoomForNewEntry ops k c) \<Longrightarrow>
   Fetch ops k s c = (length (m_entries (MakeRoom_loop ops k 0 c)), snd (MakeRoomForNewEntry ops k c))"
  by (simp add: Fetch_def case_prod_beta)

lemma Fetch_ok:
  "fst (MakeRoomForNewEntry ops k c) \<Longrightarrow>
   Fetch ops k s c =
     (length (m_entries (MakeRoom_loop ops k 0 c)),
      (snd (call_Load ops k (snd (MakeRoomForNewEntry ops k c))))
        \<lparr>m_entries := m_entries (MakeRoom_loop ops k 0 c)
           @ [mk_Entry k (fst (call_Load ops k (snd (MakeRoomForNewEntry ops k c)))) s]\<rparr>)"
  by (simp add: Fetch_def case_prod_beta)

lemma Clear_loop_char:
  "m_entries (Clear_loop ops 0 c) = []
   \<and> calls (Clear_loop ops 0 c) = calls c @ map (\<lambda>e. CallUnload (handle e)) (m_entries c)
   \<and> derived (Clear_loop ops 0 c) = foldl (\<lambda>b e. Unload ops (handle e) b) (derived c) (m_entries c)"
proof (induction "m_entries c" arbitrary: c)
  case Nil
  then have "Clear_loop ops 0 c = c"
    by (subst Clear_loop.simps) simp
  with Nil show ?case by simp
next
  case (Cons x xs)
  let ?c1 = "snd (Evict ops 0 c)"
  have es: "m_entries c = x # xs" using Cons.hyps(2) by simp
  have step: "Clear_loop ops 0 c = Clear_loop ops 0 ?c1"
    by (subst Clear_loop.simps) (simp add: es)
  have "xs = m_entries ?c1" by (simp add: es erase_def)
  from Cons.hyps(1) [OF this] show ?case
    unfolding step by (simp add: es erase_def)
qed

lemma Clear_entries: "m_entries (Clear ops c) = []"
  by (simp add: Clear_def Clear_loop_char)

lemma Clear_calls:
  "calls (Clear ops c) = calls c @ map (\<lambda>e. CallUnload (handle e)) (m_entries c)"
  by (simp add: Clear_def Clear_loop_char)

lemma Clear_derived:
  "derived (Clear ops c) = foldl (\<lambda>b e. Unload ops (handle e) b) (derived c) (m_entries c)"
  by (simp add: Clear_def Clear_loop_char)

lemma map_key_update:
  "key v = key (xs ! i) \<Longrightarrow> map key (xs[i := v]) = map key xs"
  by (cases "i < length xs") (simp_all add: list_eq_iff_nth_eq nth_list_update)

lemma set_erase_subset: "set (erase i xs) \<subseteq> set xs"
  using set_take_subset [of i xs] set_drop_subset [of "Suc i" xs] by (auto simp: erase_def)

lemma set_splice_end: "i < length xs \<Longrightarrow> set (splice_end i xs) = set xs"
proof -
  assume "i < length xs"
  then have "xs = take i xs @ xs ! i # drop (Suc i) xs" by (rule id_take_nth_drop)
  then have "set xs = set (take i xs @ xs ! i # drop (Suc i) xs)" by simp
  then show ?thesis by (auto simp: splice_end_def)
qed

lemma distinct_map_erase:
  assumes "distinct (map f xs)" shows "distinct (map f (erase i xs))"
proof (cases "i < length xs")
  case True
  then have "xs = take i xs @ xs ! i # drop (Suc i) xs" by (rule id_take_nth_drop)
  then have "distinct (map f (take i xs @ xs ! i # drop (Suc i) xs))" using assms by simp
  then show ?thesis by (auto simp: erase_def)
next
  case False
  then show ?thesis using assms by (simp add: erase_def)
qed

lemma distinct_map_splice_end:
  assumes "distinct (map f xs)" and "i < length xs"
  shows "distinct (map f (splice_end i xs))"
proof -
  from assms(2) have "xs = take i xs @ xs ! i # drop (Suc i) xs" by (rule id_take_nth_drop)
  then have "distinct (map f (take i xs @ xs ! i # drop (Suc i) xs))" using assms(1) by simp
  then show ?thesis by (auto simp: splice_end_def)
qed


lemma Find_key_absent:
  "\<not> Find_key k c < length (m_entries c) \<Longrightarrow> k \<notin> key ` set (m_entries c)"
  by (auto simp: Find_key_def find_if_less_iff)

lemma m_entries_Fetch:
  "m_entries (snd (Fetch ops k s c)) =
     (if fst (MakeRoomForNewEntry ops k c)
      then m_entries (MakeRoom_loop ops k 0 c)
             @ [mk_Entry k (fst (Load ops k (derived (snd (MakeRoomForNewEntry ops k c))))) s]
      else m_entries (MakeRoom_loop ops k 0 c))"
  by (simp add: Fetch_ok Fetch_fail)

lemma keys_distinct_Fetch:
  assumes "keys_distinct c" and "\<not> Find_key k c < length (m_entries c)"
  shows "keys_distinct (snd (Fetch ops k s c))"
proof -
  have d: "distinct (map key (m_entries (MakeRoom_loop ops k 0 c)))"
    using assms(1) by (simp add: keys_distinct_def MakeRoom_loop_distinct)
  have "k \<notin> key ` set (m_entries c)" using assms(2) by (rule Find_key_absent)
  then have "k \<notin> key ` set (m_entries (MakeRoom_loop ops k 0 c))"
    using MakeRoom_loop_subset [of ops k c] by blast
  with d show ?thesis
    by (simp add: keys_distinct_def m_entries_Fetch mk_Entry_def)
qed

lemma m_entries_Release_it:
  "m_entries (Release_it ops i f c) =
     (if state (m_entries c ! i) = STATE_REQUESTED \<or> f then erase i (m_entries c)
      else if state (m_entries c ! i) = STATE_AVAILABLE
        then splice_end i ((m_entries c)[i := (m_entries c ! i)\<lparr>state := STATE_RELEASED\<rparr>])
      else m_entries c)"
  by (simp add: Release_it_def)

lemma keys_distinct_Release_it:
  assumes "keys_distinct c" and "i < length (m_entries c)"
  shows "keys_distinct (Release_it ops i f c)"
  using assms
  by (simp add: keys_distinct_def m_entries_Release_it distinct_map_erase
      distinct_map_splice_end map_key_update)

lemma keys_distinct_Request: "keys_distinct c \<Longrightarrow> keys_distinct (snd (Request ops k c))"
proof (cases "Find_key k c < length (m_entries c)")
  case True
  assume "keys_distinct c"
  then show ?thesis using True
    by (cases "state (m_entries c ! Find_key k c)")
       (simp_all add: Request_def Reload_def Let_def keys_distinct_def map_key_update case_prod_beta)
next
  case False
  assume "keys_distinct c"
  then show ?thesis using False
    by (simp add: Request_def Let_def case_prod_beta keys_distinct_Fetch)
qed

lemma keys_distinct_Prefetch: "keys_distinct c \<Longrightarrow> keys_distinct (Prefetch ops k c)"
proof (cases "Find_key k c < length (m_entries c)")
  case True
  assume "keys_distinct c"
  then show ?thesis using True
    by (cases "state (m_entries c ! Find_key k c)")
       (simp_all add: Prefetch_def Let_def keys_distinct_def distinct_map_splice_end)
next
  case False
  assume "keys_distinct c"
  then show ?thesis using False
    by (simp add: Prefetch_def Let_def keys_distinct_Fetch)
qed

lemma keys_distinct_Get: "keys_distinct c \<Longrightarrow> keys_distinct (snd (Get ops k c))"
  by (simp add: Get_def Let_def keys_distinct_def map_key_update case_prod_beta)

lemma keys_distinct_exec: "keys_distinct c \<Longrightarrow> keys_distinct (exec ops x c)"
proof (cases x)
  case (CReleaseKey k f)
  assume "keys_distinct c"
  then show ?thesis
    by (simp add: CReleaseKey Release_key_def Let_def keys_distinct_Release_it)
next
  case (CReleasePtr p f)
  assume "keys_distinct c"
  then show ?thesis
    by (simp add: CReleasePtr Release_ptr_def Let_def keys_distinct_Release_it)
next
  case CClear
  then show ?thesis by (simp add: keys_distinct_def Clear_entries)
qed (simp_all add: keys_distinct_Request keys_distinct_Prefetch keys_distinct_Get)

lemma all_set_update:
  "\<forall>e \<in> set xs. P e \<Longrightarrow> P v \<Longrightarrow> \<forall>e \<in> set (xs[i := v]). P e"
  using set_update_subset_insert [of xs i v] by auto

lemma entries_resolved_Fetch:
  assumes "entries_resolved c" and "s = STATE_REQUESTED \<or> s = STATE_PREFETCHED"
  shows "entries_resolved (snd (Fetch ops k s c))"
  using assms MakeRoom_loop_subset [of ops k c]
  by (auto simp: entries_resolved_def m_entries_Fetch mk_Entry_def resolved_def)

lemma entries_resolved_Release_it:
  assumes "entries_resolved c" and "i < length (m_entries c)"
  shows "entries_resolved (Release_it ops i f c)"
proof -
  have all: "\<forall>e \<in> set (m_entries c). resolved e"
    using assms(1) by (simp add: entries_resolved_def)
  then have ri: "resolved (m_entries c ! i)" using assms(2) by simp
  show ?thesis
  proof (cases "state (m_entries c ! i) = STATE_REQUESTED \<or> f")
    case True
    then show ?thesis
      using all set_erase_subset [of i "m_entries c"]
      by (auto simp: entries_resolved_def m_entries_Release_it)
  next
    case False
    show ?thesis
    proof (cases "state (m_entries c ! i) = STATE_AVAILABLE")
      case True
      then have "resolved ((m_entries c ! i)\<lparr>state := STATE_RELEASED\<rparr>)"
        using ri by (simp add: resolved_def)
      with all have "\<forall>e \<in> set ((m_entries c)[i := (m_entries c ! i)\<lparr>state := STATE_RELEASED\<rparr>]). resolved e"
        by (rule all_set_update)
      then show ?thesis
        using False True assms(2)
        by (simp add: entries_resolved_def m_entries_Release_it set_splice_end)
    next
      case notav: False
      then show ?thesis
        using False assms(1) by (simp add: entries_resolved_def m_entries_Release_it)
    qed
  qed
qed

lemma entries_resolved_Request:
  assumes "entries_resolved c" shows "entries_resolved (snd (Request ops k c))"
proof (cases "Find_key k c < length (m_entries c)")
  case True
  have all: "\<forall>e \<in> set (m_entries c). resolved e"
    using assms by (simp add: entries_resolved_def)
  then have ri: "resolved (m_entries c ! Find_key k c)" using True by simp
  show ?thesis
  proof (cases "state (m_entries c ! Find_key k c)")
    case STATE_REQUESTED
    then show ?thesis using True assms by (simp add: Request_def)
  next
    case STATE_AVAILABLE
    then show ?thesis using True assms by (simp add: Request_def)
  next
    case STATE_PREFETCHED
    let ?p = "fst (GetElement ops (handle (m_entries c ! Find_key k c)) (derived c))"
    have "resolved ((m_entries c ! Find_key k c)\<lparr>state := STATE_REQUESTED\<rparr>)"
      using ri STATE_PREFETCHED by (simp add: resolved_def)
    moreover have "?p \<noteq> None \<Longrightarrow>
      resolved ((m_entries c ! Find_key k c)\<lparr>state := STATE_AVAILABLE, pElement := ?p\<rparr>)"
      by (simp add: resolved_def)
    ultimately show ?thesis
      using True STATE_PREFETCHED all_set_update [OF all]
      by (auto simp: Request_def Let_def case_prod_beta entries_resolved_def)
  next
    case STATE_RELEASED
    then have "resolved ((m_entries c ! Find_key k c)\<lparr>state := STATE_AVAILABLE\<rparr>)"
      using ri by (simp add: resolved_def)
    then show ?thesis
      using True STATE_RELEASED all_set_update [OF all]
      by (auto simp: Request_def Reload_def Let_def entries_resolved_def)
  qed
next
  case False
  then show ?thesis
    using assms by (simp add: Request_def Let_def case_prod_beta entries_resolved_Fetch)
qed

lemma entries_resolved_Prefetch:
  assumes "entries_resolved c" shows "entries_resolved (Prefetch ops k c)"
proof (cases "Find_key k c < length (m_entries c)")
  case True
  then show ?thesis using assms
    by (cases "state (m_entries c ! Find_key k c)")
       (simp_all add: Prefetch_def Let_def entries_resolved_def set_splice_end)
next
  case False
  then show ?thesis
    using assms by (simp add: Prefetch_def Let_def entries_resolved_Fetch)
qed

lemma entries_resolved_Get:
  assumes "entries_resolved c" shows "entries_resolved (snd (Get ops k c))"
proof -
  let ?i = "Find_key k c"
  let ?p = "fst (GetElement ops (handle (m_entries c ! ?i)) (derived c))"
  have all: "\<forall>e \<in> set (m_entries c). resolved e"
    using assms by (simp add: entries_resolved_def)
  have "?p \<noteq> None \<Longrightarrow>
      resolved ((m_entries c ! ?i)\<lparr>state := STATE_AVAILABLE, pElement := ?p\<rparr>)"
    by (simp add: resolved_def)
  then show ?thesis
    using all all_set_update [OF all]
    by (auto simp: Get_def Let_def case_prod_beta entries_resolved_def)
qed

lemma entries_resolved_exec: "entries_resolved c \<Longrightarrow> entries_resolved (exec ops x c)"
proof (cases x)
  case (CReleaseKey k f)
  assume "entries_resolved c"
  then show ?thesis
    by (simp add: CReleaseKey Release_key_def Let_def entries_resolved_Release_it)
next
  case (CReleasePtr p f)
  assume "entries_resolved c"
  then show ?thesis
    by (simp add: CReleasePtr Release_ptr_def Let_def entries_resolved_Release_it)
next
  case CClear
  then show ?thesis by (simp add: entries_resolved_def Clear_entries)
qed (simp_all add: entries_resolved_Request entries_resolved_Prefetch entries_resolved_Get)

lemma entries_resolved_exec_all:
  "entries_resolved c \<Longrightarrow> entries_resolved (exec_all ops xs c)"
  by (induction xs arbitrary: c) (simp_all add: entries_resolved_exec)

lemma entries_resolved_reachable:
  "entries_resolved (exec_all ops xs (AsynchronousCache b))"
  by (rule entries_resolved_exec_all) (simp add: entries_resolved_def AsynchronousCache_def)


section \<open>Sample states\<close>

lemmas eval_defs =
  Request_def Get_def Prefetch_def Release_key_def Release_ptr_def Release_it_def
  Find_key_def Find_ptr_def slot_store_def AsynchronousCache_def Fetch_def
  MakeRoomForNewEntry_def call_HasRoomFor_def call_Load_def call_GetElement_def
  call_Unload_def mk_Entry_def splice_end_def erase_def Evict_def Reload_def Clear_def
  Let_def MakeRoom_loop.simps Clear_loop.simps

text \<open>Element 1 is requested and has arrived.\<close>

lemma sample_available:
  "exec_all (slot_store 2 [1]) [CRequest 1, CGet 1] (AsynchronousCache []) =
     \<lparr>m_entries = [\<lparr>key = 1, state = STATE_AVAILABLE, handle = 1, pElement = Some 1\<rparr>],
      derived = [1],
      calls = [CallHasRoomFor 1 True, CallHasRoomFor 1 True, CallLoad 1 1,
               CallGetElement 1 (Some 1)]\<rparr>"
  by (simp add: eval_defs)

text \<open>Element 1 is requested, has arrived and is released.\<close>

lemma sample_released:
  "exec_all (slot_store 2 [1]) [CRequest 1, CGet 1, CReleaseKey 1 False] (AsynchronousCache []) =
     \<lparr>m_entries = [\<lparr>key = 1, state = STATE_RELEASED, handle = 1, pElement = Some 1\<rparr>],
      derived = [1],
      calls = [CallHasRoomFor 1 True, CallHasRoomFor 1 True, CallLoad 1 1,
               CallGetElement 1 (Some 1)]\<rparr>"
  by (simp add: eval_defs)

text \<open>Element 1 is prefetched.\<close>

lemma sample_prefetched:
  "exec_all (slot_store 2 [1]) [CPrefetch 1] (AsynchronousCache []) =
     \<lparr>m_entries = [\<lparr>key = 1, state = STATE_PREFETCHED, handle = 1, pElement = None\<rparr>],
      derived = [1],
      calls = [CallHasRoomFor 1 True, CallHasRoomFor 1 True, CallLoad 1 1]\<rparr>"
  by (simp add: eval_defs)

text \<open>Element 1 is requested and has not arrived.\<close>

lemma sample_requested:
  "exec_all (slot_store 2 []) [CRequest 1] (AsynchronousCache []) =
     \<lparr>m_entries = [\<lparr>key = 1, state = STATE_REQUESTED, handle = 1, pElement = None\<rparr>],
      derived = [1],
      calls = [CallHasRoomFor 1 True, CallHasRoomFor 1 True, CallLoad 1 1]\<rparr>"
  by (simp add: eval_defs)

text \<open>A store with one slot, taken by element 1, which is requested.\<close>

lemma sample_one_slot:
  "exec_all (slot_store 1 []) [CRequest 1] (AsynchronousCache []) =
     \<lparr>m_entries = [\<lparr>key = 1, state = STATE_REQUESTED, handle = 1, pElement = None\<rparr>],
      derived = [1],
      calls = [CallHasRoomFor 1 True, CallHasRoomFor 1 True, CallLoad 1 1]\<rparr>"
  by (simp add: eval_defs)

text \<open>Element 1 has arrived, element 2 is prefetched and still loading.\<close>

lemma sample_mixed:
  "exec_all (slot_store 2 [1]) [CRequest 1, CGet 1, CPrefetch 2] (AsynchronousCache []) =
     \<lparr>m_entries = [\<lparr>key = 1, state = STATE_AVAILABLE, handle = 1, pElement = Some 1\<rparr>,
                  \<lparr>key = 2, state = STATE_PREFETCHED, handle = 2, pElement = None\<rparr>],
      derived = [1, 2],
      calls = [CallHasRoomFor 1 True, CallHasRoomFor 1 True, CallLoad 1 1,
               CallGetElement 1 (Some 1),
               CallHasRoomFor 2 True, CallHasRoomFor 2 True, CallLoad 2 2]\<rparr>"
  by (simp add: eval_defs)

text \<open>
  Two slots. Elements 1 and 2 are requested and arrive, element 1 is released and moves
  behind element 2, and element 3 is requested: the scan passes element 2, which is in use,
  evicts element 1, and element 3 is loaded.
\<close>

lemma sample_scenario:
  "exec_all (slot_store 2 [1, 2, 3])
      [CRequest 1, CRequest 2, CGet 1, CGet 2, CReleaseKey 1 False, CRequest 3]
      (AsynchronousCache []) =
     \<lparr>m_entries =
        [\<lparr>key = 2, state = STATE_AVAILABLE, handle = 2, pElement = Some 2\<rparr>,
         \<lparr>key = 3, state = STATE_REQUESTED, handle = 3, pElement = None\<rparr>],
      derived = [2, 3],
      calls =
        [CallHasRoomFor 1 True, CallHasRoomFor 1 True, CallLoad 1 1,
         CallHasRoomFor 2 True, CallHasRoomFor 2 True, CallLoad 2 2,
         CallGetElement 1 (Some 1), CallGetElement 2 (Some 2),
         CallHasRoomFor 3 False, CallHasRoomFor 3 False, CallUnload 1,
         CallHasRoomFor 3 True, CallHasRoomFor 3 True, CallLoad 3 3]\<rparr>"
  by (simp add: eval_defs)

lemma sample_scenario_IsCached:
  "\<not> IsCached 1
       (exec_all (slot_store 2 [1, 2, 3])
          [CRequest 1, CRequest 2, CGet 1, CGet 2, CReleaseKey 1 False, CRequest 3]
          (AsynchronousCache []))
   \<and> IsCached 2
       (exec_all (slot_store 2 [1, 2, 3])
          [CRequest 1, CRequest 2, CGet 1, CGet 2, CReleaseKey 1 False, CRequest 3]
          (AsynchronousCache []))"
  unfolding sample_scenario by (simp add: IsCached_def Find_key_def)

section \<open>Request on an entry that is in the cache\<close>

text \<open>
  Claim C9. When the entry of key \<open>k\<close> is in state \<open>STATE_AVAILABLE\<close>, \<open>Request(k)\<close>
  returns \<open>true\<close> and leaves the whole state as it was: the entries, the state of the derived
  class and the history of calls to \<open>Load\<close>, \<open>Unload\<close>, \<open>HasRoomFor\<close> and \<open>GetElement\<close>,
  to which nothing is added. The same holds for any number \<open>n\<close> of such requests in a row.
\<close>

theorem Request_Available_idempotent:
  assumes "Find_key k c < length (m_entries c)"
    and "state (m_entries c ! Find_key k c) = STATE_AVAILABLE"
  shows "Request ops k c = (True, c) \<and> exec_all ops (replicate n (CRequest k)) c = c"
proof -
  have one: "Request ops k c = (True, c)"
    using assms by (simp add: Request_def)
  then have "exec ops (CRequest k) c = c" by simp
  then have "exec_all ops (replicate n (CRequest k)) c = c"
    by (induction n) simp_all
  with one show ?thesis by simp
qed

theorem Request_Available_idempotent_witness:
  "Find_key 1 (exec_all (slot_store 2 [1]) [CRequest 1, CGet 1] (AsynchronousCache []))
     < length (m_entries (exec_all (slot_store 2 [1]) [CRequest 1, CGet 1] (AsynchronousCache [])))
   \<and> state (m_entries (exec_all (slot_store 2 [1]) [CRequest 1, CGet 1] (AsynchronousCache []))
        ! Find_key 1 (exec_all (slot_store 2 [1]) [CRequest 1, CGet 1] (AsynchronousCache [])))
       = STATE_AVAILABLE
   \<and> Request (slot_store 2 [1]) 1
         (exec_all (slot_store 2 [1]) [CRequest 1, CGet 1] (AsynchronousCache []))
       = (True, exec_all (slot_store 2 [1]) [CRequest 1, CGet 1] (AsynchronousCache []))
   \<and> exec_all (slot_store 2 [1]) (replicate 3 (CRequest 1))
         (exec_all (slot_store 2 [1]) [CRequest 1, CGet 1] (AsynchronousCache []))
       = exec_all (slot_store 2 [1]) [CRequest 1, CGet 1] (AsynchronousCache [])"
  using Request_Available_idempotent
    [of 1 "exec_all (slot_store 2 [1]) [CRequest 1, CGet 1] (AsynchronousCache [])"
        "slot_store 2 [1]" 3]
  unfolding sample_available by (simp add: Find_key_def)

text \<open>
  Claim C6. When the entry of key \<open>k\<close> is in state \<open>STATE_RELEASED\<close>, \<open>Request(k)\<close>
  returns \<open>true\<close> and only sets the state of that entry to \<open>STATE_AVAILABLE\<close>: the handle
  and the element pointer of the entry are the ones it had, every other entry and the order
  of the entries are unchanged, the state of the derived class is unchanged and no call to
  \<open>Load\<close>, \<open>Unload\<close>, \<open>HasRoomFor\<close> or \<open>GetElement\<close> is added to the history.
\<close>

theorem Request_Released_reloads:
  assumes "Find_key k c < length (m_entries c)"
    and "state (m_entries c ! Find_key k c) = STATE_RELEASED"
  shows "fst (Request ops k c) = True
    \<and> calls (snd (Request ops k c)) = calls c
    \<and> derived (snd (Request ops k c)) = derived c
    \<and> m_entries (snd (Request ops k c)) =
        (m_entries c)[Find_key k c := (m_entries c ! Find_key k c)\<lparr>state := STATE_AVAILABLE\<rparr>]
    \<and> state (m_entries (snd (Request ops k c)) ! Find_key k c) = STATE_AVAILABLE
    \<and> handle (m_entries (snd (Request ops k c)) ! Find_key k c)
        = handle (m_entries c ! Find_key k c)
    \<and> pElement (m_entries (snd (Request ops k c)) ! Find_key k c)
        = pElement (m_entries c ! Find_key k c)"
  using assms by (simp add: Request_def Reload_def Let_def)

theorem Request_Released_reloads_witness:
  "Find_key 1
     (exec_all (slot_store 2 [1]) [CRequest 1, CGet 1, CReleaseKey 1 False] (AsynchronousCache []))
     < length (m_entries
        (exec_all (slot_store 2 [1]) [CRequest 1, CGet 1, CReleaseKey 1 False]
           (AsynchronousCache [])))
   \<and> state (m_entries
        (exec_all (slot_store 2 [1]) [CRequest 1, CGet 1, CReleaseKey 1 False]
           (AsynchronousCache []))
        ! Find_key 1
            (exec_all (slot_store 2 [1]) [CRequest 1, CGet 1, CReleaseKey 1 False]
               (AsynchronousCache [])))
      = STATE_RELEASED
   \<and> Request (slot_store 2 [1]) 1
        (exec_all (slot_store 2 [1]) [CRequest 1, CGet 1, CReleaseKey 1 False]
           (AsynchronousCache []))
      = (True,
         \<lparr>m_entries = [\<lparr>key = 1, state = STATE_AVAILABLE, handle = 1, pElement = Some 1\<rparr>],
          derived = [1],
          calls = [CallHasRoomFor 1 True, CallHasRoomFor 1 True, CallLoad 1 1,
                   CallGetElement 1 (Some 1)]\<rparr>)"
  using Request_Released_reloads
    [of 1 "exec_all (slot_store 2 [1]) [CRequest 1, CGet 1, CReleaseKey 1 False]
             (AsynchronousCache [])" "slot_store 2 [1]"]
  unfolding sample_released by (simp add: Find_key_def prod_eq_iff)

section \<open>Making room\<close>

text \<open>
  Claim C4. \<open>MakeRoomForNewEntry(key)\<close> scans a prefix of the entries, the first \<open>n\<close> of
  them, from the head. The entries left are the scanned ones that are not evictable, that is
  the ones in state \<open>STATE_REQUESTED\<close> or \<open>STATE_AVAILABLE\<close> (lemma
  \<open>not_evictable_iff\<close>), in their order, followed by
  the entries that were not scanned: exactly the scanned entries in state
  \<open>STATE_RELEASED\<close> or \<open>STATE_PREFETCHED\<close> are removed. The calls made are, for each
  scanned entry in turn, a \<open>HasRoomFor(key)\<close> that answers \<open>false\<close> and, when the entry is
  evicted, the \<open>Unload\<close> of its handle; then the \<open>HasRoomFor(key)\<close> that ends the loop, with
  answer \<open>r\<close>, where \<open>r\<close> is \<open>true\<close> or the scan has reached the tail; then one more
  \<open>HasRoomFor(key)\<close>, whose answer is the value returned.
\<close>

theorem MakeRoomForNewEntry_scan:
  "\<exists>n r. n \<le> length (m_entries c) \<and> (r \<or> n = length (m_entries c)) \<and>
     m_entries (snd (MakeRoomForNewEntry ops k c)) =
       filter (\<lambda>e. \<not> evictable e) (take n (m_entries c)) @ drop n (m_entries c) \<and>
     calls (snd (MakeRoomForNewEntry ops k c)) =
       calls c @ scan_calls k (take n (m_entries c))
         @ [CallHasRoomFor k r, CallHasRoomFor k (fst (MakeRoomForNewEntry ops k c))]"
proof -
  obtain n r where "n \<le> length (m_entries c)" "r \<or> n = length (m_entries c)"
    and "m_entries (MakeRoom_loop ops k 0 c) =
       filter (\<lambda>e. \<not> evictable e) (take n (m_entries c)) @ drop n (m_entries c)"
    and "calls (MakeRoom_loop ops k 0 c) =
       calls c @ scan_calls k (take n (m_entries c)) @ [CallHasRoomFor k r]"
    using MakeRoom_loop_char [of 0 c ops k] by auto
  then show ?thesis
    by (intro exI [of _ n] exI [of _ r]) (simp add: MakeRoomForNewEntry_def)
qed

section \<open>Request without room\<close>

text \<open>
  Claim C5. When \<open>Request(k)\<close> returns \<open>false\<close>, there was no entry of key \<open>k\<close>,
  \<open>MakeRoomForNewEntry(k)\<close> returned \<open>false\<close>, and the last call made is a
  \<open>HasRoomFor(k)\<close> that answered \<open>false\<close>. The state left is the one that
  \<open>MakeRoomForNewEntry\<close> left: its entries are among the entries there were, and none of
  them has key \<open>k\<close>.
\<close>

theorem Request_false_only_without_room:
  assumes "\<not> fst (Request ops k c)"
  shows "(\<forall>e \<in> set (m_entries c). key e \<noteq> k)
    \<and> MakeRoomForNewEntry ops k c = (False, snd (Request ops k c))
    \<and> last (calls (snd (Request ops k c))) = CallHasRoomFor k False
    \<and> set (m_entries (snd (Request ops k c))) \<subseteq> set (m_entries c)
    \<and> (\<forall>e \<in> set (m_entries (snd (Request ops k c))). key e \<noteq> k)"
proof -
  have absent: "\<not> Find_key k c < length (m_entries c)"
    using assms by (auto simp: Request_def Let_def case_prod_beta split: State.splits if_splits)
  then have nokey: "\<forall>e \<in> set (m_entries c). key e \<noteq> k"
    by (simp add: Find_key_def find_if_less_iff)
  have noroom: "\<not> fst (MakeRoomForNewEntry ops k c)"
  proof
    assume "fst (MakeRoomForNewEntry ops k c)"
    then have "fst (Request ops k c)"
      using absent by (simp add: Request_def Fetch_ok)
    with assms show False by simp
  qed
  then have req: "Request ops k c = (False, snd (MakeRoomForNewEntry ops k c))"
    using absent by (simp add: Request_def Fetch_fail)
  have sub: "set (m_entries (snd (MakeRoomForNewEntry ops k c))) \<subseteq> set (m_entries c)"
    by (simp add: MakeRoom_loop_subset)
  with nokey have "\<forall>e \<in> set (m_entries (snd (MakeRoomForNewEntry ops k c))). key e \<noteq> k"
    by blast
  moreover have "last (calls (snd (MakeRoomForNewEntry ops k c))) = CallHasRoomFor k False"
    using noroom by (simp add: MakeRoomForNewEntry_def)
  ultimately show ?thesis
    using nokey noroom sub unfolding req by (simp add: prod_eq_iff)
qed

theorem Request_false_only_without_room_witness:
  "\<not> fst (Request (slot_store 1 []) 2
            (exec_all (slot_store 1 []) [CRequest 1] (AsynchronousCache [])))
   \<and> MakeRoomForNewEntry (slot_store 1 []) 2
         (exec_all (slot_store 1 []) [CRequest 1] (AsynchronousCache []))
       = (False, snd (Request (slot_store 1 []) 2
            (exec_all (slot_store 1 []) [CRequest 1] (AsynchronousCache []))))
   \<and> map key (m_entries (snd (Request (slot_store 1 []) 2
            (exec_all (slot_store 1 []) [CRequest 1] (AsynchronousCache []))))) = [1]"
  using Request_false_only_without_room
    [of "slot_store 1 []" 2 "exec_all (slot_store 1 []) [CRequest 1] (AsynchronousCache [])"]
  unfolding sample_one_slot by (simp add: eval_defs)

section \<open>IsEmpty and Clear\<close>

text \<open>
  Claim C2. \<open>IsEmpty()\<close> is documented to return \<open>true\<close> when there are no elements in
  the cache. The code computes \<open>m_entries.empty()\<close> and returns nothing: on a cache that has
  just been constructed, which has no entries, the call yields no value.
\<close>

theorem IsEmpty_no_value:
  "m_entries (AsynchronousCache b) = [] \<and> IsEmpty (AsynchronousCache b) = None"
  by (simp add: AsynchronousCache_def IsEmpty_def)

text \<open>
  Claim C7. \<open>Clear()\<close> leaves no entry and calls \<open>Unload\<close> once for the handle of every
  entry, in the order of the entries, whatever their states (lemmas \<open>Clear_entries\<close>,
  \<open>Clear_calls\<close>). Here element 1 is available and element 2 is still loading: both are
  unloaded and the store is empty, yet \<open>IsEmpty()\<close> afterwards yields no value, where the
  claim has \<open>true\<close>.
\<close>

theorem Clear_then_IsEmpty:
  "m_entries (Clear (slot_store 2 [1])
     (exec_all (slot_store 2 [1]) [CRequest 1, CGet 1, CPrefetch 2] (AsynchronousCache []))) = []
   \<and> calls (Clear (slot_store 2 [1])
     (exec_all (slot_store 2 [1]) [CRequest 1, CGet 1, CPrefetch 2] (AsynchronousCache [])))
     = calls (exec_all (slot_store 2 [1]) [CRequest 1, CGet 1, CPrefetch 2] (AsynchronousCache []))
       @ [CallUnload 1, CallUnload 2]
   \<and> IsEmpty (Clear (slot_store 2 [1])
     (exec_all (slot_store 2 [1]) [CRequest 1, CGet 1, CPrefetch 2] (AsynchronousCache [])))
     = None"
  unfolding sample_mixed by (simp add: Clear_entries Clear_calls IsEmpty_def)

section \<open>One entry for each key\<close>

text \<open>
  Claim C8. No two entries have the same key: this holds in every state that a sequence of
  calls of \<open>Request\<close>, \<open>Prefetch\<close>, \<open>Get\<close>, \<open>Release\<close> (by key or by address, forced or
  not) and \<open>Clear\<close> reaches from a newly constructed cache, and every such sequence keeps
  it when it starts from any state that has it, for every derived class.
\<close>

theorem keys_distinct_exec_all:
  "keys_distinct (exec_all ops xs (AsynchronousCache b))
   \<and> (keys_distinct c \<longrightarrow> keys_distinct (exec_all ops xs c))"
proof -
  have step: "keys_distinct s \<Longrightarrow> keys_distinct (exec_all ops xs s)" for s
    by (induction xs arbitrary: s) (simp_all add: keys_distinct_exec)
  have "keys_distinct (AsynchronousCache b)"
    by (simp add: keys_distinct_def AsynchronousCache_def)
  with step show ?thesis by blast
qed

theorem keys_distinct_exec_all_witness:
  "keys_distinct (exec_all (slot_store 2 [1]) [CRequest 1, CGet 1, CPrefetch 2] (AsynchronousCache []))
   \<and> keys_distinct
        (exec_all (slot_store 2 [1])
           [CRequest 1, CPrefetch 2, CPrefetch 1, CReleaseKey 1 False, CRequest 3, CRequest 2]
           (exec_all (slot_store 2 [1]) [CRequest 1, CGet 1, CPrefetch 2] (AsynchronousCache [])))"
  using keys_distinct_exec_all
    [of "slot_store 2 [1]"
        "[CRequest 1, CPrefetch 2, CPrefetch 1, CReleaseKey 1 False, CRequest 3, CRequest 2]"
        "[]"
        "exec_all (slot_store 2 [1]) [CRequest 1, CGet 1, CPrefetch 2] (AsynchronousCache [])"]
  unfolding sample_mixed by (simp add: keys_distinct_def)

section \<open>Get\<close>

text \<open>
  Claim C1, as the code has it. In a state where an entry has a null element pointer exactly
  while it is requested or prefetched (every state built by the member functions is such a
  state, lemma \<open>entries_resolved_reachable\<close>), \<open>Get(k)\<close> does the following. When no
  entry has key \<open>k\<close> it returns null and changes nothing. When the entry of \<open>k\<close> is
  available or released it returns the element pointer stored in the entry and changes
  nothing; for a released entry this is the pointer captured when the element arrived, not
  null. When the entry is prefetched it returns null and changes nothing. Only when the entry
  is requested does it call \<open>GetElement\<close> with the handle of the entry: if the answer is not
  null the entry becomes available with that pointer, which is returned; otherwise null is
  returned and the entries are unchanged. So \<open>Get\<close> never returns null for an entry that
  is available or released.
\<close>

theorem Get_by_state:
  assumes "entries_resolved c"
  shows "Get ops k c =
    (if Find_key k c < length (m_entries c) then
       (case state (m_entries c ! Find_key k c) of
          STATE_AVAILABLE \<Rightarrow> (pElement (m_entries c ! Find_key k c), c)
        | STATE_RELEASED \<Rightarrow> (pElement (m_entries c ! Find_key k c), c)
        | STATE_PREFETCHED \<Rightarrow> (None, c)
        | STATE_REQUESTED \<Rightarrow>
            (let r = call_GetElement ops (handle (m_entries c ! Find_key k c)) c
             in if fst r \<noteq> None then
                  (fst r,
                   (snd r)\<lparr>m_entries := (m_entries c)
                      [Find_key k c :=
                         (m_entries c ! Find_key k c)\<lparr>state := STATE_AVAILABLE, pElement := fst r\<rparr>]\<rparr>)
                else (None, snd r)))
     else (None, c))
   \<and> (Find_key k c < length (m_entries c)
        \<and> (state (m_entries c ! Find_key k c) = STATE_AVAILABLE
            \<or> state (m_entries c ! Find_key k c) = STATE_RELEASED)
       \<longrightarrow> fst (Get ops k c) \<noteq> None)"
proof (cases "Find_key k c < length (m_entries c)")
  case False
  then show ?thesis by (simp add: Get_def)
next
  case True
  let ?e = "m_entries c ! Find_key k c"
  have r: "resolved ?e"
    using assms True by (simp add: entries_resolved_def)
  show ?thesis
  proof (cases "state ?e")
    case STATE_REQUESTED
    then have "pElement ?e = None" using r by (simp add: resolved_def)
    then show ?thesis
      using True STATE_REQUESTED by (simp add: Get_def Let_def case_prod_beta)
  next
    case STATE_PREFETCHED
    then have "pElement ?e = None" using r by (simp add: resolved_def)
    then show ?thesis
      using True STATE_PREFETCHED by (simp add: Get_def)
  next
    case STATE_AVAILABLE
    then have "pElement ?e \<noteq> None" using r by (simp add: resolved_def)
    then show ?thesis using True STATE_AVAILABLE by (simp add: Get_def)
  next
    case STATE_RELEASED
    then have "pElement ?e \<noteq> None" using r by (simp add: resolved_def)
    then show ?thesis using True STATE_RELEASED by (simp add: Get_def)
  qed
qed

theorem Get_by_state_witness:
  "entries_resolved
     (exec_all (slot_store 2 [1]) [CRequest 1, CGet 1, CReleaseKey 1 False] (AsynchronousCache []))
   \<and> Find_key 1
        (exec_all (slot_store 2 [1]) [CRequest 1, CGet 1, CReleaseKey 1 False] (AsynchronousCache []))
      = 0
   \<and> state (m_entries
        (exec_all (slot_store 2 [1]) [CRequest 1, CGet 1, CReleaseKey 1 False] (AsynchronousCache []))
        ! 0) = STATE_RELEASED
   \<and> Get (slot_store 2 [1]) 1
        (exec_all (slot_store 2 [1]) [CRequest 1, CGet 1, CReleaseKey 1 False] (AsynchronousCache []))
      = (Some 1,
         exec_all (slot_store 2 [1]) [CRequest 1, CGet 1, CReleaseKey 1 False] (AsynchronousCache []))
   \<and> entries_resolved (exec_all (slot_store 2 [1]) [CPrefetch 1] (AsynchronousCache []))
   \<and> Get (slot_store 2 [1]) 1 (exec_all (slot_store 2 [1]) [CPrefetch 1] (AsynchronousCache []))
      = (None, exec_all (slot_store 2 [1]) [CPrefetch 1] (AsynchronousCache []))"
  using Get_by_state
    [of "exec_all (slot_store 2 [1]) [CRequest 1, CGet 1, CReleaseKey 1 False] (AsynchronousCache [])"
        "slot_store 2 [1]" 1]
    Get_by_state
    [of "exec_all (slot_store 2 [1]) [CPrefetch 1] (AsynchronousCache [])" "slot_store 2 [1]" 1]
  unfolding sample_released sample_prefetched
  by (simp add: entries_resolved_def resolved_def Find_key_def)

text \<open>
  Claim C1 as first stated has \<open>Get\<close> return null for a released entry. After
  \<open>Request(1)\<close>, \<open>Get(1)\<close> and \<open>Release(1)\<close> the entry of key 1 is released, and
  \<open>Get(1)\<close> returns the address of the element.
\<close>

theorem Get_Released_counterexample:
  "state (m_entries (exec_all (slot_store 2 [1]) [CRequest 1, CGet 1, CReleaseKey 1 False]
                      (AsynchronousCache []))
          ! Find_key 1 (exec_all (slot_store 2 [1]) [CRequest 1, CGet 1, CReleaseKey 1 False]
                          (AsynchronousCache [])))
     = STATE_RELEASED
   \<and> fst (Get (slot_store 2 [1]) 1
            (exec_all (slot_store 2 [1]) [CRequest 1, CGet 1, CReleaseKey 1 False]
               (AsynchronousCache [])))
     = Some 1"
  unfolding sample_released by (simp add: Get_def Find_key_def)

section \<open>Release\<close>

text \<open>
  Claim C3, as the code has it. For an entry in state \<open>STATE_PREFETCHED\<close> or
  \<open>STATE_RELEASED\<close>, \<open>Release\<close> without \<open>forceEviction\<close> changes nothing at all: the
  entries, the state of the derived class and the history of calls are the same, and the
  function returns no value, so nothing tells the caller of the misuse. With
  \<open>forceEviction\<close> the entry is evicted like any other: \<open>Unload\<close> is called with its
  handle and the entry is removed. Both public overloads of \<open>Release\<close>, by key and by
  address, do this to the entry they find.
\<close>

theorem Release_it_not_held:
  assumes "i < length (m_entries c)"
    and "state (m_entries c ! i) = STATE_PREFETCHED \<or> state (m_entries c ! i) = STATE_RELEASED"
  shows "Release_it ops i False c = c
    \<and> m_entries (Release_it ops i True c) = erase i (m_entries c)
    \<and> calls (Release_it ops i True c) = calls c @ [CallUnload (handle (m_entries c ! i))]
    \<and> derived (Release_it ops i True c) = Unload ops (handle (m_entries c ! i)) (derived c)
    \<and> (Find_key k c = i \<longrightarrow> Release_key ops k f c = Release_it ops i f c)
    \<and> (Find_ptr p c = i \<longrightarrow> Release_ptr ops p f c = Release_it ops i f c)"
  using assms by (auto simp: Release_it_def Release_key_def Release_ptr_def)

theorem Release_it_not_held_witness:
  "1 < length (m_entries
            (exec_all (slot_store 2 [1]) [CRequest 1, CGet 1, CPrefetch 2] (AsynchronousCache [])))
   \<and> state (m_entries
            (exec_all (slot_store 2 [1]) [CRequest 1, CGet 1, CPrefetch 2] (AsynchronousCache []))
          ! 1)
     = STATE_PREFETCHED
   \<and> Find_key 2
        (exec_all (slot_store 2 [1]) [CRequest 1, CGet 1, CPrefetch 2] (AsynchronousCache [])) = 1
   \<and> Find_ptr None
        (exec_all (slot_store 2 [1]) [CRequest 1, CGet 1, CPrefetch 2] (AsynchronousCache [])) = 1
   \<and> Release_key (slot_store 2 [1]) 2 False
        (exec_all (slot_store 2 [1]) [CRequest 1, CGet 1, CPrefetch 2] (AsynchronousCache []))
     = exec_all (slot_store 2 [1]) [CRequest 1, CGet 1, CPrefetch 2] (AsynchronousCache [])
   \<and> Release_ptr (slot_store 2 [1]) None False
        (exec_all (slot_store 2 [1]) [CRequest 1, CGet 1, CPrefetch 2] (AsynchronousCache []))
     = exec_all (slot_store 2 [1]) [CRequest 1, CGet 1, CPrefetch 2] (AsynchronousCache [])
   \<and> map key (m_entries (Release_key (slot_store 2 [1]) 2 True
        (exec_all (slot_store 2 [1]) [CRequest 1, CGet 1, CPrefetch 2] (AsynchronousCache []))))
     = [1]
   \<and> calls (Release_key (slot_store 2 [1]) 2 True
        (exec_all (slot_store 2 [1]) [CRequest 1, CGet 1, CPrefetch 2] (AsynchronousCache [])))
     = calls (exec_all (slot_store 2 [1]) [CRequest 1, CGet 1, CPrefetch 2] (AsynchronousCache []))
       @ [CallUnload 2]"
  using Release_it_not_held
    [of 1 "exec_all (slot_store 2 [1]) [CRequest 1, CGet 1, CPrefetch 2] (AsynchronousCache [])"
        "slot_store 2 [1]" 2 False None]
    Release_it_not_held
    [of 1 "exec_all (slot_store 2 [1]) [CRequest 1, CGet 1, CPrefetch 2] (AsynchronousCache [])"
        "slot_store 2 [1]" 2 True None]
  unfolding sample_mixed by (simp add: erase_def Find_key_def Find_ptr_def)

text \<open>
  Claim C3 as first stated has the entry neither transitioned nor removed for any value of
  \<open>forceEviction\<close>, and the misuse reported. After \<open>Request(1)\<close>, \<open>Get(1)\<close> and
  \<open>Release(1)\<close> the entry of key 1 is released; \<open>Release(1, true)\<close> then removes it, and
  \<open>Release(1, false)\<close> leaves the whole state as it was.
\<close>

theorem Release_not_held_counterexample:
  "state (m_entries (exec_all (slot_store 2 [1]) [CRequest 1, CGet 1, CReleaseKey 1 False]
                      (AsynchronousCache []))
          ! Find_key 1 (exec_all (slot_store 2 [1]) [CRequest 1, CGet 1, CReleaseKey 1 False]
                          (AsynchronousCache [])))
     = STATE_RELEASED
   \<and> m_entries (Release_key (slot_store 2 [1]) 1 True
        (exec_all (slot_store 2 [1]) [CRequest 1, CGet 1, CReleaseKey 1 False]
           (AsynchronousCache [])))
     = []
   \<and> Release_key (slot_store 2 [1]) 1 False
        (exec_all (slot_store 2 [1]) [CRequest 1, CGet 1, CReleaseKey 1 False]
           (AsynchronousCache []))
     = exec_all (slot_store 2 [1]) [CRequest 1, CGet 1, CReleaseKey 1 False]
         (AsynchronousCache [])"
  unfolding sample_released
  by (simp add: Release_key_def Release_it_def Find_key_def erase_def)

text \<open>
  Claim C10, as the code has it. In a state built by the member functions that has an entry
  still waiting for its element (requested or prefetched, element pointer null),
  \<open>Release\<close> with a null pointer finds the first entry whose element pointer is null, and
  that entry is requested or prefetched. The entry is evicted (unloaded and removed) when it
  is requested or when \<open>forceEviction\<close> is set; when it is prefetched and
  \<open>forceEviction\<close> is not set, the call changes nothing.
\<close>

theorem Release_null_pointer:
  assumes "entries_resolved c"
    and "\<exists>e \<in> set (m_entries c).
           pElement e = None \<and> (state e = STATE_REQUESTED \<or> state e = STATE_PREFETCHED)"
  shows "Find_ptr None c < length (m_entries c)
    \<and> pElement (m_entries c ! Find_ptr None c) = None
    \<and> (state (m_entries c ! Find_ptr None c) = STATE_REQUESTED
        \<or> state (m_entries c ! Find_ptr None c) = STATE_PREFETCHED)
    \<and> (\<forall>j < Find_ptr None c. pElement (m_entries c ! j) \<noteq> None)
    \<and> Release_ptr ops None f c =
        (if state (m_entries c ! Find_ptr None c) = STATE_REQUESTED \<or> f
         then snd (Evict ops (Find_ptr None c) c) else c)"
proof -
  let ?i = "Find_ptr None c"
  have lt: "?i < length (m_entries c)"
    using assms(2) by (auto simp: Find_ptr_def find_if_less_iff)
  then have null: "pElement (m_entries c ! ?i) = None"
    unfolding Find_ptr_def by (rule find_if_nth)
  have "resolved (m_entries c ! ?i)"
    using assms(1) lt by (simp add: entries_resolved_def)
  with null have st: "state (m_entries c ! ?i) = STATE_REQUESTED
        \<or> state (m_entries c ! ?i) = STATE_PREFETCHED"
    by (simp add: resolved_def)
  have first: "\<forall>j < ?i. pElement (m_entries c ! j) \<noteq> None"
    unfolding Find_ptr_def by (auto dest: find_if_first)
  have "Release_ptr ops None f c =
        (if state (m_entries c ! ?i) = STATE_REQUESTED \<or> f
         then snd (Evict ops ?i c) else c)"
    using lt st by (auto simp: Release_ptr_def Release_it_def Let_def)
  with lt null st first show ?thesis by blast
qed

theorem Release_null_pointer_witness:
  "entries_resolved
     (exec_all (slot_store 2 [1]) [CRequest 1, CGet 1, CPrefetch 2] (AsynchronousCache []))
   \<and> Find_ptr None
        (exec_all (slot_store 2 [1]) [CRequest 1, CGet 1, CPrefetch 2] (AsynchronousCache [])) = 1
   \<and> pElement (m_entries
        (exec_all (slot_store 2 [1]) [CRequest 1, CGet 1, CPrefetch 2] (AsynchronousCache [])) ! 0)
      = Some 1
   \<and> state (m_entries
        (exec_all (slot_store 2 [1]) [CRequest 1, CGet 1, CPrefetch 2] (AsynchronousCache [])) ! 1)
      = STATE_PREFETCHED
   \<and> map key (m_entries (Release_ptr (slot_store 2 [1]) None True
        (exec_all (slot_store 2 [1]) [CRequest 1, CGet 1, CPrefetch 2] (AsynchronousCache []))))
      = [1]
   \<and> entries_resolved (exec_all (slot_store 2 []) [CRequest 1] (AsynchronousCache []))
   \<and> Find_ptr None (exec_all (slot_store 2 []) [CRequest 1] (AsynchronousCache [])) = 0
   \<and> state (m_entries (exec_all (slot_store 2 []) [CRequest 1] (AsynchronousCache [])) ! 0)
      = STATE_REQUESTED
   \<and> m_entries (Release_ptr (slot_store 2 []) None False
        (exec_all (slot_store 2 []) [CRequest 1] (AsynchronousCache []))) = []
   \<and> calls (Release_ptr (slot_store 2 []) None False
        (exec_all (slot_store 2 []) [CRequest 1] (AsynchronousCache [])))
      = calls (exec_all (slot_store 2 []) [CRequest 1] (AsynchronousCache [])) @ [CallUnload 1]"
  using Release_null_pointer
    [of "exec_all (slot_store 2 [1]) [CRequest 1, CGet 1, CPrefetch 2] (AsynchronousCache [])"
        "slot_store 2 [1]" True]
    Release_null_pointer
    [of "exec_all (slot_store 2 []) [CRequest 1] (AsynchronousCache [])" "slot_store 2 []" False]
  unfolding sample_mixed sample_requested
  by (simp add: entries_resolved_def resolved_def Find_ptr_def erase_def)

text \<open>
  Claim C10 as first stated has the matched entry released or evicted in every case. After
  \<open>Prefetch(1)\<close> the only entry is prefetched with a null element pointer; \<open>Release\<close>
  with a null pointer and without \<open>forceEviction\<close> finds it and leaves the whole state as
  it was.
\<close>

theorem Release_null_counterexample:
  "pElement (m_entries (exec_all (slot_store 2 [1]) [CPrefetch 1] (AsynchronousCache [])) ! 0)
     = None
   \<and> state (m_entries (exec_all (slot_store 2 [1]) [CPrefetch 1] (AsynchronousCache [])) ! 0)
     = STATE_PREFETCHED
   \<and> Find_ptr None (exec_all (slot_store 2 [1]) [CPrefetch 1] (AsynchronousCache [])) = 0
   \<and> Release_ptr (slot_store 2 [1]) None False
        (exec_all (slot_store 2 [1]) [CPrefetch 1] (AsynchronousCache []))
     = exec_all (slot_store 2 [1]) [CPrefetch 1] (AsynchronousCache [])"
  unfolding sample_prefetched
  by (simp add: Release_ptr_def Release_it_def Find_ptr_def)

end
